theory Spec2Isabelle
  imports Main
begin

section \<open>Path canonicalisation: \<open>xabspath\<close> of \<open>toylib/xfile.c\<close>\<close>

text \<open>
  \<open>xabspath(path, exact)\<close> walks the components of a path under a directory file
  descriptor, follows symbolic links by splicing their targets onto the front of the
  pending list, and assembles the canonical absolute path from the resolved list.

  The model is a shallow embedding. The two linked lists \<open>todo\<close> and \<open>done\<close> are
  HOL lists of component names (head first), the directory descriptor is an optional
  handle (\<open>None\<close> is the descriptor \<open>-1\<close>, also when it comes from a failed
  \<open>open("/", 0)\<close>), \<open>errno\<close> is a field of the loop state, and
  the system calls are functions of an environment record. What the function does to
  descriptors and list nodes (\<open>open\<close>, \<open>close\<close>, \<open>free\<close>) is emitted as a list of events,
  in program order. C strings are \<open>string\<close>s without the terminating NUL.
\<close>

subsection \<open>The environment: file system and \<open>errno\<close>\<close>

text \<open>
  The values of \<open>errno\<close> that the function tests or sets, \<open>EBADF\<close> for a system call on
  the descriptor \<open>-1\<close>, and \<open>EOTHER n\<close> for any other error number \<open>n\<close>.
\<close>

datatype err_code = ENOENT | EINVAL | ELOOP | EBADF | EOTHER nat

text \<open>
  A handle of type \<open>'fd\<close> stands for an open directory (or file). The environment gives
  the handle of the root directory, the error with which \<open>open("/", 0)\<close> fails (\<open>None\<close>
  when it succeeds and returns that handle), the target of the symbolic link \<open>name\<close>
  under a handle (or the error of the lookup), the handle that opening \<open>name\<close> under a
  handle returns (or the error), and the string that \<open>xgetcwd()\<close> returns. The file
  system does not change during a call. \<open>xgetcwd\<close> and \<open>xmalloc\<close> are taken to return
  (they exit the process otherwise).
\<close>

record 'fd env =
  root_dir :: 'fd
  root_error :: "err_code option"
  readlink_target :: "'fd \<Rightarrow> string \<Rightarrow> err_code + string"
  open_entry :: "'fd \<Rightarrow> string \<Rightarrow> err_code + 'fd"
  xgetcwd :: string

datatype 'fd event = Open 'fd | Close "'fd option" | FreeNode string

text \<open>
  Modelled from the spec: \<open>xreadlinkat\<close> is not defined in the sources (\<open>xfile.c\<close>
  includes \<open>toys.h\<close> and \<open>xfuncs.h\<close>, which are not among them). It is the primitive
  \<open>read-symlink-relative(directory_handle, name, buffer, max_len) -> byte_count | failure(errno)\<close>:
  at most \<open>max_len\<close> bytes of the target are stored and counted. On the descriptor
  \<open>-1\<close> the lookup fails with \<open>EBADF\<close>. \<open>Inl e\<close> is the return value \<open>-1\<close> with
  \<open>errno = e\<close>; \<open>Inr buf\<close> is the return value \<open>length buf\<close>, with \<open>errno\<close> untouched.
\<close>

definition xreadlinkat :: "'fd env \<Rightarrow> 'fd option \<Rightarrow> string \<Rightarrow> nat \<Rightarrow> err_code + string" where
  "xreadlinkat env dirfd name max_len =
     (case dirfd of
        None \<Rightarrow> Inl EBADF
      | Some d \<Rightarrow>
          (case readlink_target env d name of
             Inl e \<Rightarrow> Inl e
           | Inr target \<Rightarrow> Inr (take max_len target)))"

text \<open>
  Modelled from the spec: \<open>xopenat\<close> is not defined in the sources either. It is the
  primitive
  \<open>open-relative(directory_handle, name, flags) -> handle | failure(errno)\<close>.
\<close>

definition xopenat :: "'fd env \<Rightarrow> 'fd option \<Rightarrow> string \<Rightarrow> err_code + 'fd" where
  "xopenat env dirfd name =
     (case dirfd of
        None \<Rightarrow> Inl EBADF
      | Some d \<Rightarrow> open_entry env d name)"

text \<open>
  \<open>open("/", 0)\<close> of lines 170 and 231, whose result the source does not test: the
  descriptor it yields (\<open>None\<close> is \<open>-1\<close>), \<open>errno\<close> after it, and its event.
\<close>

definition open_root :: "'fd env \<Rightarrow> 'fd option" where
  "open_root env = (case root_error env of None \<Rightarrow> Some (root_dir env) | Some e \<Rightarrow> None)"

definition open_root_errno :: "'fd env \<Rightarrow> err_code \<Rightarrow> err_code" where
  "open_root_errno env e0 = (case root_error env of None \<Rightarrow> e0 | Some e \<Rightarrow> e)"

definition open_root_events :: "'fd env \<Rightarrow> 'fd event list" where
  "open_root_events env = (case root_error env of None \<Rightarrow> [Open (root_dir env)] | Some e \<Rightarrow> [])"

lemmas open_root_defs = open_root_def open_root_errno_def open_root_events_def

text \<open>\<open>close(fd)\<close> leaves \<open>errno\<close> alone on an open descriptor and sets \<open>EBADF\<close> on \<open>-1\<close>.\<close>

definition close_errno :: "'fd option \<Rightarrow> err_code \<Rightarrow> err_code" where
  "close_errno fd e = (case fd of None \<Rightarrow> EBADF | Some _ \<Rightarrow> e)"

subsection \<open>The component splitter\<close>

text \<open>
  Modelled from the spec: \<open>splitpath\<close> is not defined in the sources. It splits the string on \<open>/\<close> and yields one node per
  non-empty component, in order, silently dropping empty components. \<open>split_from cur s\<close>
  scans \<open>s\<close> with \<open>cur\<close> the component read so far.
\<close>

fun split_from :: "string \<Rightarrow> string \<Rightarrow> string list" where
  "split_from cur [] = (if cur = [] then [] else [cur])"
| "split_from cur (c # cs) =
     (if c = CHR ''/''
      then (if cur = [] then split_from [] cs else cur # split_from [] cs)
      else split_from (cur @ [c]) cs)"

definition splitpath :: "string \<Rightarrow> string list" where
  "splitpath path = split_from [] path"

subsection \<open>The resolution loop\<close>

text \<open>
  The variables of the loop. \<open>try\<close> never becomes negative before it is tested, so it
  is a natural number; \<open>!try--\<close> tests it for zero and then decrements it.
\<close>

record 'fd rstate =
  todo :: "string list"
  done_list :: "string list"
  try_cnt :: nat
  dirfd :: "'fd option"
  errno :: err_code

text \<open>
  One iteration either goes round the loop again, or leaves it: to the assembly of the
  result (the loop condition fails, or \<open>break\<close>), or to the label \<open>error\<close>.
\<close>

datatype 'fd stop = Exit "'fd rstate" | Fatal "'fd rstate"

datatype 'fd stepres = Continue "'fd rstate" | Stop "'fd stop"

text \<open>
  Lines 218 to 222: open \<open>s\<close> under the directory descriptor, and replace the descriptor.
  A failed open is passed over only for the last component, without \<open>exact\<close>, and with
  \<open>ENOENT\<close>; the descriptor is then \<open>-1\<close>. \<open>evs\<close> are the events of the iteration so far.
\<close>

definition move_dirfd ::
  "'fd env \<Rightarrow> bool \<Rightarrow> 'fd rstate \<Rightarrow> string \<Rightarrow> 'fd event list \<Rightarrow> 'fd stepres \<times> 'fd event list" where
  "move_dirfd env exact st s evs =
     (case xopenat env (dirfd st) s of
        Inl e \<Rightarrow>
          if exact \<or> todo st \<noteq> [] \<or> e \<noteq> ENOENT
          then (Stop (Fatal (st\<lparr>errno := e\<rparr>)), evs)
          else (Continue (st\<lparr>dirfd := None, errno := close_errno (dirfd st) e\<rparr>),
                evs @ [Close (dirfd st)])
      | Inr fd \<Rightarrow>
          (Continue (st\<lparr>dirfd := Some fd, errno := close_errno (dirfd st) (errno st)\<rparr>),
           evs @ [Open fd, Close (dirfd st)]))"

text \<open>
  Lines 225 to 242: the component \<open>new\<close> is a symbolic link with target \<open>buf\<close>. An
  absolute target drops the resolved list and reopens the root. The components of the
  target go in front of the pending list.
\<close>

definition follow_link ::
  "'fd env \<Rightarrow> 'fd rstate \<Rightarrow> string \<Rightarrow> string \<Rightarrow> 'fd stepres \<times> 'fd event list" where
  "follow_link env st new buf =
     (if hd buf = CHR ''/''
      then (Continue (st\<lparr>todo := splitpath buf @ todo st, done_list := [],
                         dirfd := open_root env,
                         errno := open_root_errno env (close_errno (dirfd st) (errno st))\<rparr>),
            map FreeNode (done_list st) @ [Close (dirfd st)] @ open_root_events env @
            [FreeNode new])
      else (Continue (st\<lparr>todo := splitpath buf @ todo st\<rparr>), [FreeNode new]))"

text \<open>
  Lines 210 to 217: the lookup of \<open>new\<close> failed with \<open>e\<close>, so it is not a symbolic link.
\<close>

definition not_link ::
  "'fd env \<Rightarrow> bool \<Rightarrow> 'fd rstate \<Rightarrow> string \<Rightarrow> err_code \<Rightarrow> 'fd stepres \<times> 'fd event list" where
  "not_link env exact st new e =
     (if (exact \<or> todo st \<noteq> []) \<and> e \<noteq> EINVAL
      then (Stop (Fatal (st\<lparr>errno := e\<rparr>)), [])
      else if e = EINVAL \<and> todo st = []
      then (Stop (Exit (st\<lparr>done_list := new # done_list st, errno := e\<rparr>)), [])
      else move_dirfd env exact (st\<lparr>done_list := new # done_list st, errno := e\<rparr>) new [])"

text \<open>The body of the \<open>while (todo)\<close> loop, lines 182 to 243.\<close>

definition step :: "'fd env \<Rightarrow> bool \<Rightarrow> 'fd rstate \<Rightarrow> 'fd stepres \<times> 'fd event list" where
  "step env exact st =
     (case todo st of
        [] \<Rightarrow> (Stop (Exit st), [])
      | new # rest \<Rightarrow>
          if try_cnt st = 0
          then (Stop (Fatal (st\<lparr>todo := rest, errno := ELOOP\<rparr>)), [])
          else
            let st1 = st\<lparr>todo := rest, try_cnt := try_cnt st - 1\<rparr> in
            if new = ''.'' then (Continue st1, [FreeNode new])
            else if new = ''..'' then
              (case done_list st1 of
                 [] \<Rightarrow> move_dirfd env exact st1 ''..'' [FreeNode new]
               | popped # dn \<Rightarrow>
                   move_dirfd env exact (st1\<lparr>done_list := dn\<rparr>) ''..'' [FreeNode new, FreeNode popped])
            else
              (case xreadlinkat env (dirfd st1) new 4096 of
                 Inl e \<Rightarrow> not_link env exact st1 new e
               | Inr buf \<Rightarrow>
                   if length buf > 4095 then (Stop (Fatal st1), [])
                   else if length buf < 1 then move_dirfd env exact st1 ''..'' []
                   else follow_link env st1 new buf))"

text \<open>An iteration that goes round again has decremented \<open>try\<close>.\<close>

lemma move_dirfd_try:
  "move_dirfd env exact st s evs = (Continue st', evs') \<Longrightarrow> try_cnt st' = try_cnt st"
  by (auto simp: move_dirfd_def split: sum.splits if_splits)

lemma step_try:
  assumes "step env exact st = (Continue st', evs)"
  shows "try_cnt st = Suc (try_cnt st')"
  using assms
  by (auto simp: step_def Let_def not_link_def follow_link_def
      split: list.splits if_splits sum.splits dest!: move_dirfd_try)

text \<open>
  The loop of lines 182 to 243: iterations until one leaves the loop, with the events of
  all of them. The recursion terminates because \<open>try\<close> decreases.
\<close>

function xabspath_loop :: "'fd env \<Rightarrow> bool \<Rightarrow> 'fd rstate \<Rightarrow> 'fd stop \<times> 'fd event list" where
  "xabspath_loop env exact st =
     (case step env exact st of
        (Continue st', evs) \<Rightarrow>
          (case xabspath_loop env exact st' of (out, evs') \<Rightarrow> (out, evs @ evs'))
      | (Stop out, evs) \<Rightarrow> (out, evs))"
  by pat_completeness auto
termination
  by (relation "measure (\<lambda>(env, exact, st). try_cnt st)") (auto dest: step_try [OF sym])

text \<open>
  The state after \<open>n\<close> full iterations, with the events emitted on the way, when none of
  them left the loop.
\<close>

fun iter ::
  "'fd env \<Rightarrow> bool \<Rightarrow> nat \<Rightarrow> 'fd rstate \<Rightarrow> ('fd rstate \<times> 'fd event list) option" where
  "iter env exact 0 st = Some (st, [])"
| "iter env exact (Suc n) st =
     (case step env exact st of
        (Continue st', evs) \<Rightarrow>
          (case iter env exact n st' of
             None \<Rightarrow> None
           | Some (st'', evs') \<Rightarrow> Some (st'', evs @ evs'))
      | (Stop out, evs) \<Rightarrow> None)"

subsection \<open>Assembly of the result, and the error exit\<close>

text \<open>
  Lines 249 to 257: \<open>done\<close> is reversed onto \<open>todo\<close> while \<open>try\<close> adds up the size
  of the buffer.
\<close>

fun reverse_done :: "string list \<Rightarrow> string list \<Rightarrow> nat \<Rightarrow> string list \<times> nat" where
  "reverse_done [] todo_l try = (todo_l, try)"
| "reverse_done (temp # done_l) todo_l try =
     reverse_done done_l (temp # todo_l) ((if todo_l \<noteq> [] then try + 1 else try) + length temp)"

text \<open>
  Lines 261 to 268: \<open>ret\<close> holds the bytes before the terminating NUL, so \<open>try\<close> is
  its length.
\<close>

fun assemble :: "string \<Rightarrow> string list \<Rightarrow> string" where
  "assemble ret [] = ret"
| "assemble ret (s # todo_l) =
     assemble ((if length ret > 1 then ret @ ''/'' else ret) @ s) todo_l"

text \<open>
  What the caller sees: the returned string (\<open>None\<close> is \<open>NULL\<close>), \<open>errno\<close> at the
  return, and the events of the call.
\<close>

record 'fd result =
  ret :: "string option"
  err :: err_code
  events :: "'fd event list"

text \<open>
  Lines 244 to 270 after the loop, and lines 272 to 277 after \<open>goto error\<close>.
\<close>

fun finish :: "'fd stop \<Rightarrow> 'fd result" where
  "finish (Exit st) =
     (case reverse_done (done_list st) (todo st) 2 of
        (todo_l, try) \<Rightarrow>
          \<lparr>ret = Some (assemble ''/'' todo_l),
           err = close_errno (dirfd st) (errno st),
           events = Close (dirfd st) # map FreeNode todo_l\<rparr>)"
| "finish (Fatal st) =
     \<lparr>ret = None,
      err = close_errno (dirfd st) (errno st),
      events = Close (dirfd st) # map FreeNode (todo st) @ map FreeNode (done_list st)\<rparr>"

text \<open>The loop and what follows it, from any state of the loop.\<close>

definition run :: "'fd env \<Rightarrow> bool \<Rightarrow> 'fd rstate \<Rightarrow> 'fd result" where
  "run env exact st =
     (case xabspath_loop env exact st of
        (out, evs) \<Rightarrow> (finish out)\<lparr>events := evs @ events (finish out)\<rparr>)"

text \<open>Lines 169 to 179. \<open>e0\<close> is \<open>errno\<close> at the call.\<close>

definition is_absolute :: "string \<Rightarrow> bool" where
  "is_absolute path = (case path of [] \<Rightarrow> False | c # _ \<Rightarrow> c = CHR ''/'')"

definition init_state :: "'fd env \<Rightarrow> err_code \<Rightarrow> string \<Rightarrow> 'fd rstate" where
  "init_state env e0 path =
     \<lparr>todo = (if \<not> is_absolute path then splitpath (xgetcwd env) @ splitpath path
              else splitpath path),
      done_list = [],
      try_cnt = 9999,
      dirfd = open_root env,
      errno = open_root_errno env e0\<rparr>"

definition xabspath :: "'fd env \<Rightarrow> err_code \<Rightarrow> string \<Rightarrow> bool \<Rightarrow> 'fd result" where
  "xabspath env e0 path exact =
     (let r = run env exact (init_state env e0 path)
      in r\<lparr>events := open_root_events env @ events r\<rparr>)"

subsection \<open>Predicates and functions on loop states\<close>

text \<open>
  The directory descriptor is \<open>-1\<close> only when nothing is pending: a failed open is
  passed over for the last component only.
\<close>

definition dir_ok :: "'fd rstate \<Rightarrow> bool" where
  "dir_ok st = (dirfd st = None \<longrightarrow> todo st = [])"

text \<open>A directory descriptor is open only where \<open>open("/", 0)\<close> succeeds.\<close>

definition root_ok :: "'fd env \<Rightarrow> 'fd rstate \<Rightarrow> bool" where
  "root_ok env st = (dirfd st \<noteq> None \<longrightarrow> root_error env = None)"

text \<open>The state in which an iteration or the loop ended.\<close>

fun stop_state :: "'fd stop \<Rightarrow> 'fd rstate" where
  "stop_state (Exit st) = st"
| "stop_state (Fatal st) = st"

fun res_state :: "'fd stepres \<Rightarrow> 'fd rstate" where
  "res_state (Continue st) = st"
| "res_state (Stop out) = stop_state out"

text \<open>The directory descriptor as a list of open descriptors: empty for \<open>-1\<close>.\<close>

definition cursor :: "'fd rstate \<Rightarrow> 'fd list" where
  "cursor st = (case dirfd st of None \<Rightarrow> [] | Some d \<Rightarrow> [d])"

text \<open>A component name: not empty and without \<open>/\<close>.\<close>

definition component :: "string \<Rightarrow> bool" where
  "component c = (c \<noteq> [] \<and> CHR ''/'' \<notin> set c)"

text \<open>Every pending and every resolved component is a component name.\<close>

definition comps_ok :: "'fd rstate \<Rightarrow> bool" where
  "comps_ok st = (\<forall>c \<in> set (todo st) \<union> set (done_list st). component c)"

text \<open>No two \<open>/\<close> next to each other.\<close>

fun no_double_slash :: "string \<Rightarrow> bool" where
  "no_double_slash (c # d # cs) = (\<not> (c = CHR ''/'' \<and> d = CHR ''/'') \<and> no_double_slash (d # cs))"
| "no_double_slash cs = True"

text \<open>The same state with one more iteration allowed.\<close>

definition more_budget :: "'fd rstate \<Rightarrow> 'fd rstate" where
  "more_budget st = st\<lparr>try_cnt := Suc (try_cnt st)\<rparr>"

text \<open>A function on states, applied to the state of a result.\<close>

fun map_stop :: "('fd rstate \<Rightarrow> 'fd rstate) \<Rightarrow> 'fd stop \<Rightarrow> 'fd stop" where
  "map_stop f (Exit st) = Exit (f st)"
| "map_stop f (Fatal st) = Fatal (f st)"

fun map_res :: "('fd rstate \<Rightarrow> 'fd rstate) \<Rightarrow> 'fd stepres \<Rightarrow> 'fd stepres" where
  "map_res f (Continue st) = Continue (f st)"
| "map_res f (Stop out) = Stop (map_stop f out)"

subsection \<open>Open descriptors along the events\<close>

text \<open>
  The descriptors that are open after a sequence of events, newest first, starting from
  the open descriptors \<open>hs\<close>; and the largest number of descriptors open at the same
  time on the way.
\<close>

fun apply_event :: "'fd event \<Rightarrow> 'fd list \<Rightarrow> 'fd list" where
  "apply_event (Open h) hs = h # hs"
| "apply_event (Close None) hs = hs"
| "apply_event (Close (Some h)) hs = remove1 h hs"
| "apply_event (FreeNode s) hs = hs"

fun live_after :: "'fd list \<Rightarrow> 'fd event list \<Rightarrow> 'fd list" where
  "live_after hs [] = hs"
| "live_after hs (e # es) = live_after (apply_event e hs) es"

fun max_live :: "'fd list \<Rightarrow> 'fd event list \<Rightarrow> nat" where
  "max_live hs [] = length hs"
| "max_live hs (e # es) = max (length hs) (max_live (apply_event e hs) es)"

subsection \<open>Sample file systems\<close>

text \<open>
  A file system given by two tables: the symbolic links (directory handle and name to
  target) and the other entries (directory handle and name to the handle that opening
  the entry gives). Handles are numbers, the root is \<open>0\<close> and can be opened. A name
  in neither table does not exist.
\<close>

definition table_fs ::
  "((nat \<times> string) \<times> string) list \<Rightarrow> ((nat \<times> string) \<times> nat) list \<Rightarrow> string \<Rightarrow> nat env" where
  "table_fs links entries cwd =
     \<lparr>root_dir = 0,
      root_error = None,
      readlink_target = (\<lambda>d name.
        case map_of links (d, name) of
          Some target \<Rightarrow> Inr target
        | None \<Rightarrow> (case map_of entries (d, name) of Some _ \<Rightarrow> Inl EINVAL | None \<Rightarrow> Inl ENOENT)),
      open_entry = (\<lambda>d name.
        case map_of entries (d, name) of Some d' \<Rightarrow> Inr d' | None \<Rightarrow> Inl ENOENT),
      xgetcwd = cwd\<rparr>"

text \<open>
  The directories \<open>/a\<close> (handle 1) and \<open>/a/b\<close> (handle 2) and the entry \<open>/a/c\<close>, with
  the parent entries \<open>..\<close>; no symbolic links.
\<close>

definition fs_abc :: "nat env" where
  "fs_abc = table_fs []
     [((0, ''a''), 1), ((1, ''b''), 2), ((1, ''c''), 3),
      ((0, ''..''), 0), ((1, ''..''), 0), ((2, ''..''), 1)] ''/''"



text \<open>
  The directories of \<open>fs_abc\<close> with the symbolic links \<open>/l -> /a/b\<close> and
  \<open>/a/b/up -> /a\<close>, and a link \<open>/a/big\<close> whose target is 5000 bytes long. The
  working directory is \<open>/a\<close>.
\<close>

definition fs_links :: "nat env" where
  "fs_links = table_fs
     [((0, ''l''), ''/a/b''), ((2, ''up''), ''/a''), ((1, ''big''), replicate 5000 (CHR ''x''))]
     [((0, ''a''), 1), ((1, ''b''), 2), ((1, ''c''), 3),
      ((0, ''..''), 0), ((1, ''..''), 0), ((2, ''..''), 1)] ''/a''"

text \<open>A file system where \<open>/a -> /b/c\<close> and \<open>/b/c/d\<close> exists.\<close>

definition fs_subst :: "nat env" where
  "fs_subst = table_fs [((0, ''a''), ''/b/c'')]
     [((0, ''b''), 1), ((1, ''c''), 2), ((2, ''d''), 3)] ''/''"



text \<open>\<open>k\<close> times \<open>./\<close>.\<close>

definition dots :: "nat \<Rightarrow> string" where
  "dots k = concat (replicate k ''./'')"

text \<open>
  A file system where \<open>/a -> /b/c\<close>, and where \<open>/b\<close> starts a chain of five relative
  links whose targets are runs of \<open>./\<close>, 9992 in all; \<open>/c\<close> is a directory with an
  entry \<open>d\<close>. Each target is shorter than 4096 bytes.
\<close>

definition fs_chain :: "nat env" where
  "fs_chain = table_fs
     [((0, ''a''), ''/b/c''),
      ((0, ''b''), dots 2000 @ ''e''), ((0, ''e''), dots 2000 @ ''f''),
      ((0, ''f''), dots 2000 @ ''g''), ((0, ''g''), dots 2000 @ ''h''),
      ((0, ''h''), dots 1992)]
     [((0, ''c''), 1), ((1, ''d''), 2)] ''/''"

text \<open>A loop state of \<open>fs_chain\<close> in the root directory with nothing resolved.\<close>

definition chain_state :: "string list \<Rightarrow> nat \<Rightarrow> err_code \<Rightarrow> nat rstate" where
  "chain_state pending n e =
     \<lparr>todo = pending, done_list = [], try_cnt = n, dirfd = Some 0, errno = e\<rparr>"

section \<open>Facts about the loop\<close>

declare xabspath_loop.simps [simp del]

lemma loop_Stop:
  "step env exact st = (Stop out, evs) \<Longrightarrow> xabspath_loop env exact st = (out, evs)"
  by (simp add: xabspath_loop.simps)

lemma loop_Continue:
  "step env exact st = (Continue st', evs) \<Longrightarrow>
   xabspath_loop env exact st =
     (fst (xabspath_loop env exact st'), evs @ snd (xabspath_loop env exact st'))"
  by (simp add: xabspath_loop.simps split: prod.splits)

lemma run_Stop:
  "step env exact st = (Stop out, evs) \<Longrightarrow>
   run env exact st = (finish out)\<lparr>events := evs @ events (finish out)\<rparr>"
  by (simp add: run_def loop_Stop)

lemma run_Continue:
  "step env exact st = (Continue st', evs) \<Longrightarrow>
   run env exact st = (run env exact st')\<lparr>events := evs @ events (run env exact st')\<rparr>"
  by (simp add: run_def loop_Continue split: prod.splits)

lemma iter_loop:
  "iter env exact n st = Some (st', evs) \<Longrightarrow>
   xabspath_loop env exact st =
     (fst (xabspath_loop env exact st'), evs @ snd (xabspath_loop env exact st'))"
proof (induction n arbitrary: st evs)
  case 0
  then show ?case by simp
next
  case (Suc n)
  then show ?case
    by (auto simp: loop_Continue split: prod.splits stepres.splits option.splits)
qed

lemma iter_run:
  "iter env exact n st = Some (st', evs) \<Longrightarrow>
   run env exact st = (run env exact st')\<lparr>events := evs @ events (run env exact st')\<rparr>"
  by (simp add: run_def iter_loop split: prod.splits)


lemma move_dirfd_dir_ok:
  "move_dirfd env exact st s evs = (Continue st', evs') \<Longrightarrow> dir_ok st'"
  by (auto simp: move_dirfd_def dir_ok_def split: sum.splits if_splits)

lemma move_dirfd_root_ok:
  "move_dirfd env exact st s evs = (Continue st', evs') \<Longrightarrow> root_ok env st \<Longrightarrow>
   root_ok env st'"
  by (auto simp: move_dirfd_def root_ok_def xopenat_def split: sum.splits if_splits option.splits)

lemma step_root_ok:
  "step env exact st = (Continue st', evs) \<Longrightarrow> root_ok env st \<Longrightarrow> root_ok env st'"
  apply (auto simp: step_def Let_def not_link_def follow_link_def
      split: list.splits if_splits sum.splits dest: move_dirfd_root_ok)
       apply (auto simp: root_ok_def open_root_def split: option.splits
      dest!: move_dirfd_root_ok)
  done

lemma step_dir_ok:
  "step env exact st = (Continue st', evs) \<Longrightarrow> dir_ok st \<Longrightarrow> root_ok env st \<Longrightarrow>
   dir_ok st'"
  apply (auto simp: step_def Let_def not_link_def follow_link_def
      split: list.splits if_splits sum.splits dest: move_dirfd_dir_ok)
   apply (auto simp: dir_ok_def root_ok_def open_root_def xreadlinkat_def split: option.splits)
  done

lemma iter_root_ok:
  "iter env exact n st = Some (st', evs) \<Longrightarrow> root_ok env st \<Longrightarrow> root_ok env st'"
proof (induction n arbitrary: st evs)
  case 0
  then show ?case by simp
next
  case (Suc n)
  then show ?case
    by (auto split: prod.splits stepres.splits option.splits dest: step_root_ok)
qed

lemma iter_dir_ok:
  "iter env exact n st = Some (st', evs) \<Longrightarrow> dir_ok st \<Longrightarrow> root_ok env st \<Longrightarrow>
   dir_ok st'"
proof (induction n arbitrary: st evs)
  case 0
  then show ?case by simp
next
  case (Suc n)
  then show ?case
    by (auto split: prod.splits stepres.splits option.splits dest: step_dir_ok step_root_ok)
qed

lemma init_root_ok: "root_ok env (init_state env e0 path)"
  by (simp add: root_ok_def init_state_def open_root_def split: option.splits)

lemma init_dir_ok: "root_error env = None \<Longrightarrow> dir_ok (init_state env e0 path)"
  by (simp add: dir_ok_def init_state_def open_root_def)

lemma iter_add:
  "iter env exact m st = Some (st1, evs1) \<Longrightarrow> iter env exact n st1 = Some (st2, evs2) \<Longrightarrow>
   iter env exact (m + n) st = Some (st2, evs1 @ evs2)"
proof (induction m arbitrary: st evs1)
  case 0
  then show ?case by simp
next
  case (Suc m)
  then show ?case
    by (auto split: prod.splits stepres.splits option.splits)
qed

lemma xabspath_iter:
  "iter env exact n (init_state env e0 path) = Some (st, evs) \<Longrightarrow>
   ret (xabspath env e0 path exact) = ret (run env exact st) \<and>
   err (xabspath env e0 path exact) = err (run env exact st)"
  by (simp add: xabspath_def Let_def iter_run)

text \<open>Runs of \<open>.\<close> components: each costs one iteration and nothing else.\<close>

lemma dots_Suc: "dots (Suc k) = ''./'' @ dots k"
  by (simp add: dots_def)

lemma length_dots: "length (dots k) = 2 * k"
  by (induction k) (simp_all add: dots_def)

lemma split_from_dots: "split_from [] (dots k @ s) = replicate k ''.'' @ split_from [] s"
  by (induction k) (simp_all add: dots_Suc, simp add: dots_def)

lemma hd_dots: "0 < k \<Longrightarrow> hd (dots k @ s) = CHR ''.''"
  by (cases k) (simp_all add: dots_Suc)

lemma iter_dots:
  "iter env exact k (st\<lparr>todo := replicate k ''.'' @ rest, try_cnt := k + n\<rparr>)
     = Some (st\<lparr>todo := rest, try_cnt := n\<rparr>, replicate k (FreeNode ''.''))"
proof (induction k)
  case 0
  then show ?case by simp
next
  case (Suc k)
  have "step env exact (st\<lparr>todo := replicate (Suc k) ''.'' @ rest, try_cnt := Suc k + n\<rparr>)
      = (Continue (st\<lparr>todo := replicate k ''.'' @ rest, try_cnt := k + n\<rparr>), [FreeNode ''.''])"
    by (simp add: step_def Let_def)
  with Suc show ?case by simp
qed


section \<open>The components \<open>.\<close> and \<open>..\<close>\<close>

lemmas eval_defs = xabspath_def run_def init_state_def is_absolute_def splitpath_def
  open_root_defs
  step_def Let_def not_link_def follow_link_def move_dirfd_def xreadlinkat_def xopenat_def
  close_errno_def xabspath_loop.simps




section \<open>Missing components\<close>

text \<open>
  Before the last component the flag \<open>exact\<close> is not looked at: an iteration that
  leaves something pending does the same with and without it.
\<close>

lemma iter_Suc_todo: "iter env exact (Suc n) st = Some x \<Longrightarrow> todo st \<noteq> []"
  by (auto simp: step_def split: list.splits)

lemma move_dirfd_exact:
  "move_dirfd env ex st s evs = (Continue st', evs') \<Longrightarrow> todo st' \<noteq> [] \<Longrightarrow>
   move_dirfd env ex' st s evs = (Continue st', evs')"
  by (auto simp: move_dirfd_def split: sum.splits if_splits)

lemma move_dirfd_todo:
  "move_dirfd env ex st s evs = (Continue st', evs') \<Longrightarrow> todo st' = todo st"
  by (auto simp: move_dirfd_def split: sum.splits if_splits)

lemma not_link_exact:
  "not_link env ex st new e = (Continue st', evs) \<Longrightarrow> todo st' \<noteq> [] \<Longrightarrow>
   not_link env ex' st new e = (Continue st', evs)"
  by (auto simp: not_link_def split: if_splits
      dest: move_dirfd_todo move_dirfd_exact [where ex' = ex'])

lemma step_exact:
  "step env ex st = (Continue st', evs) \<Longrightarrow> todo st' \<noteq> [] \<Longrightarrow>
   step env ex' st = (Continue st', evs)"
  by (auto simp: step_def Let_def split: if_splits list.splits sum.splits
      dest: not_link_exact [where ex' = ex'] move_dirfd_exact [where ex' = ex'])

lemma iter_exact:
  "iter env ex n st = Some (st', evs) \<Longrightarrow> todo st' \<noteq> [] \<Longrightarrow>
   iter env ex' n st = Some (st', evs)"
proof (induction n arbitrary: st evs)
  case 0
  then show ?case by simp
next
  case (Suc n)
  from Suc.prems(1) obtain st1 evs1 evs2 where
    s: "step env ex st = (Continue st1, evs1)" and
    i: "iter env ex n st1 = Some (st', evs2)" and e: "evs = evs1 @ evs2"
    by (auto split: prod.splits stepres.splits option.splits)
  have "todo st1 \<noteq> []"
  proof (cases n)
    case 0
    with i Suc.prems(2) show ?thesis by simp
  next
    case (Suc m)
    with i have "iter env ex (Suc m) st1 = Some (st', evs2)" by simp
    then show ?thesis by (rule iter_Suc_todo)
  qed
  with s have "step env ex' st = (Continue st1, evs1)"
    by (rule step_exact)
  moreover from Suc.IH [OF i Suc.prems(2)] have "iter env ex' n st1 = Some (st', evs2)" .
  ultimately show ?case using e by simp
qed

lemma reverse_done_fst: "fst (reverse_done dn td n) = rev dn @ td"
  by (induction dn arbitrary: td n) auto





text \<open>
  C6. Let resolution reach a component \<open>name\<close> that is followed by further pending
  components, and let \<open>name\<close> not exist in the current directory. Then the call returns
  \<open>NULL\<close> whatever \<open>exact\<close> is, with \<open>errno = ENOENT\<close> unless the iteration counter ran
  out at this component.
\<close>

theorem missing_intermediate_component:
  assumes reach: "iter env ex n (init_state env e0 path) = Some (st, evs)"
    and more: "todo st = name # rest" "rest \<noteq> []"
    and name: "name \<noteq> ''.''" "name \<noteq> ''..''"
    and dir: "dirfd st = Some d"
    and rl: "readlink_target env d name = Inl ENOENT"
  shows "ret (xabspath env e0 path exact) = None \<and>
         (0 < try_cnt st \<longrightarrow> err (xabspath env e0 path exact) = ENOENT)"
proof -
  have ne: "todo st \<noteq> []" using more by simp
  have r: "iter env exact n (init_state env e0 path) = Some (st, evs)"
    using iter_exact [OF reach ne] .
  show ?thesis
  proof (cases "try_cnt st = 0")
    case True
    then have s: "step env exact st = (Stop (Fatal (st\<lparr>todo := rest, errno := ELOOP\<rparr>)), [])"
      using more by (simp add: step_def)
    show ?thesis
      using xabspath_iter [OF r] run_Stop [OF s] True by simp
  next
    case False
    then have s: "step env exact st =
        (Stop (Fatal (st\<lparr>todo := rest, try_cnt := try_cnt st - 1, errno := ENOENT\<rparr>)), [])"
      using more name dir rl
      by (simp add: step_def Let_def xreadlinkat_def not_link_def)
    show ?thesis
      using xabspath_iter [OF r] run_Stop [OF s] dir by (simp add: close_errno_def)
  qed
qed



theorem missing_intermediate_component_witness:
  "ret (xabspath fs_abc ENOENT ''/zz/b'' False) = None \<and>
   ret (xabspath fs_abc ENOENT ''/zz/b'' True) = None \<and>
   err (xabspath fs_abc ENOENT ''/zz/b'' False) = ENOENT"
proof -
  have r: "iter fs_abc False 0 (init_state fs_abc ENOENT ''/zz/b'')
      = Some (init_state fs_abc ENOENT ''/zz/b'', [])"
    by simp
  have t: "todo (init_state fs_abc ENOENT ''/zz/b'') = [''zz'', ''b'']"
    "dirfd (init_state fs_abc ENOENT ''/zz/b'') = Some 0"
    "0 < try_cnt (init_state fs_abc ENOENT ''/zz/b'')"
    by (simp_all add: init_state_def open_root_defs is_absolute_def splitpath_def fs_abc_def table_fs_def)
  have a: "readlink_target fs_abc 0 ''zz'' = Inl ENOENT"
    by (simp add: fs_abc_def table_fs_def)
  show ?thesis
    using missing_intermediate_component [OF r t(1) _ _ _ t(2) a, of False]
      missing_intermediate_component [OF r t(1) _ _ _ t(2) a, of True] t(3)
    by simp
qed

section \<open>The iteration counter\<close>







section \<open>Symbolic links\<close>

text \<open>
  C4. Let resolution reach a pending component \<open>name\<close> that is a symbolic link whose
  target (at most 4095 bytes) begins with \<open>/\<close>. The iteration frees the whole resolved
  list, closes the directory descriptor and opens the root again, and goes on with the
  components of the target in front of the pending list, an empty resolved list and the
  root as directory. The call returns what the loop returns from that state, so nothing
  resolved before the link is in the result.
\<close>

theorem absolute_link_resets:
  assumes reach: "iter env exact n (init_state env e0 path) = Some (st, evs)"
    and pending: "todo st = name # rest" and name: "name \<noteq> ''.''" "name \<noteq> ''..''"
    and budget: "0 < try_cnt st"
    and dir: "dirfd st = Some d"
    and link: "readlink_target env d name = Inr target"
    and target: "length target \<le> 4095" "target \<noteq> []" "hd target = CHR ''/''"
    and st': "st' = \<lparr>todo = splitpath target @ rest, done_list = [],
                     try_cnt = try_cnt st - 1, dirfd = Some (root_dir env), errno = errno st\<rparr>"
  shows "step env exact st =
           (Continue st',
            map FreeNode (done_list st) @ [Close (Some d), Open (root_dir env), FreeNode name]) \<and>
         ret (xabspath env e0 path exact) = ret (run env exact st')"
proof -
  have "root_ok env st" using iter_root_ok [OF reach init_root_ok] .
  with dir have o: "root_error env = None" by (simp add: root_ok_def)
  have s: "step env exact st =
           (Continue st',
            map FreeNode (done_list st) @ [Close (Some d), Open (root_dir env), FreeNode name])"
    using pending name budget dir link target st' o
    by (cases target)
      (simp_all add: step_def Let_def xreadlinkat_def follow_link_def close_errno_def
        open_root_def open_root_errno_def open_root_events_def)
  from xabspath_iter [OF reach] run_Continue [OF s] s show ?thesis by simp
qed

theorem absolute_link_resets_witness:
  "step fs_links True
     \<lparr>todo = [''up'', ''c''], done_list = [''b'', ''a''], try_cnt = 9997, dirfd = Some 2,
      errno = EINVAL\<rparr> =
     (Continue \<lparr>todo = [''a'', ''c''], done_list = [], try_cnt = 9996, dirfd = Some 0,
                errno = EINVAL\<rparr>,
      [FreeNode ''b'', FreeNode ''a'', Close (Some 2), Open 0, FreeNode ''up'']) \<and>
   ret (xabspath fs_links ENOENT ''/a/b/up/c'' True) = Some ''/a/c''"
proof -
  let ?st = "\<lparr>todo = [''up'', ''c''], done_list = [''b'', ''a''], try_cnt = 9997,
              dirfd = Some (2::nat), errno = EINVAL\<rparr>"
  let ?st' = "\<lparr>todo = [''a'', ''c''], done_list = [], try_cnt = 9996,
              dirfd = Some (0::nat), errno = EINVAL\<rparr>"
  have r: "iter fs_links True (Suc (Suc 0)) (init_state fs_links ENOENT ''/a/b/up/c'')
      = Some (?st, [Open 1, Close (Some 0), Open 2, Close (Some 1)])"
    by (simp add: eval_defs fs_links_def table_fs_def)
  have l: "readlink_target fs_links 2 ''up'' = Inr ''/a''"
    by (simp add: fs_links_def table_fs_def)
  have e: "?st' = \<lparr>todo = splitpath ''/a'' @ [''c''], done_list = [],
                     try_cnt = try_cnt ?st - 1, dirfd = Some (root_dir fs_links), errno = errno ?st\<rparr>"
    by (simp add: splitpath_def fs_links_def table_fs_def)
  have v: "ret (run fs_links True ?st') = Some ''/a/c''"
    by (simp add: eval_defs fs_links_def table_fs_def)
  from absolute_link_resets [OF r _ _ _ _ _ l _ _ _ e] v show ?thesis
    by (simp add: fs_links_def table_fs_def)
qed

text \<open>
  C9. Let resolution reach a pending component \<open>name\<close> that is a symbolic link whose
  target has more than 4095 bytes, so that \<open>xreadlinkat\<close> with the buffer of 4096 bytes
  returns 4096. The call returns \<open>NULL\<close>, and \<open>errno\<close> at the return is what it was
  before the read: neither the read nor the error exit sets it.
\<close>

theorem oversized_link_target:
  assumes reach: "iter env exact n (init_state env e0 path) = Some (st, evs)"
    and pending: "todo st = name # rest" and name: "name \<noteq> ''.''" "name \<noteq> ''..''"
    and budget: "0 < try_cnt st"
    and dir: "dirfd st = Some d"
    and link: "readlink_target env d name = Inr target"
    and target: "4095 < length target"
  shows "(\<exists>buf. xreadlinkat env (dirfd st) name 4096 = Inr buf \<and> length buf = 4096) \<and>
         ret (xabspath env e0 path exact) = None \<and>
         err (xabspath env e0 path exact) = errno st"
proof -
  have x: "xreadlinkat env (dirfd st) name 4096 = Inr (take 4096 target)"
    using dir link by (simp add: xreadlinkat_def)
  have s: "step env exact st =
      (Stop (Fatal (st\<lparr>todo := rest, try_cnt := try_cnt st - 1\<rparr>)), [])"
    using pending name budget target x by (simp add: step_def Let_def)
  from xabspath_iter [OF reach] run_Stop [OF s] x dir target show ?thesis
    by (simp add: close_errno_def)
qed

theorem oversized_link_target_witness:
  "ret (xabspath fs_links ENOENT ''big'' False) = None \<and>
   err (xabspath fs_links ENOENT ''big'' False) = EINVAL"
proof -
  let ?st = "\<lparr>todo = [''big''], done_list = [''a''], try_cnt = 9998,
              dirfd = Some (1::nat), errno = EINVAL\<rparr>"
  have r: "iter fs_links False (Suc 0) (init_state fs_links ENOENT ''big'')
      = Some (?st, [Open 1, Close (Some 0)])"
    by (simp add: eval_defs fs_links_def table_fs_def)
  have l: "readlink_target fs_links 1 ''big'' = Inr (replicate 5000 (CHR ''x''))"
    by (simp add: fs_links_def table_fs_def)
  from oversized_link_target [OF r _ _ _ _ _ l] show ?thesis
    by simp
qed

section \<open>The error exit\<close>

lemma move_dirfd_Fatal_dirfd:
  "move_dirfd env exact st s evs = (Stop (Fatal st'), evs') \<Longrightarrow> dirfd st' = dirfd st"
  by (auto simp: move_dirfd_def split: sum.splits if_splits)

lemma step_Fatal_dirfd:
  "step env exact st = (Stop (Fatal st'), evs) \<Longrightarrow> dir_ok st \<Longrightarrow> dirfd st' \<noteq> None"
  by (auto simp: step_def Let_def not_link_def follow_link_def dir_ok_def
      split: list.splits if_splits sum.splits dest!: move_dirfd_Fatal_dirfd)

lemma loop_Fatal_dirfd:
  "xabspath_loop env exact st = (Fatal st', evs) \<Longrightarrow> dir_ok st \<Longrightarrow> root_ok env st \<Longrightarrow>
   dirfd st' \<noteq> None"
proof (induction env exact st arbitrary: evs rule: xabspath_loop.induct)
  case (1 env exact st)
  obtain res evs1 where s: "step env exact st = (res, evs1)"
    by (cases "step env exact st")
  show ?case
  proof (cases res)
    case (Continue st1)
    with s have c: "step env exact st = (Continue st1, evs1)" by simp
    have ok: "dir_ok st1" using step_dir_ok [OF c "1.prems"(2,3)] .
    have ok': "root_ok env st1" using step_root_ok [OF c "1.prems"(3)] .
    from "1.prems"(1) loop_Continue [OF c]
    have "xabspath_loop env exact st1 = (Fatal st', snd (xabspath_loop env exact st1))"
      by (cases "xabspath_loop env exact st1") simp
    from "1.IH" [OF c [symmetric] refl this ok ok'] show ?thesis .
  next
    case (Stop out)
    with s "1.prems"(1) have "step env exact st = (Stop (Fatal st'), evs)"
      by (simp add: loop_Stop)
    then show ?thesis using "1.prems"(2) by (rule step_Fatal_dirfd)
  qed
qed




section \<open>Open directory descriptors\<close>

lemma live_after_append: "live_after hs (xs @ ys) = live_after (live_after hs xs) ys"
  by (induction xs arbitrary: hs) auto

lemma max_live_ge: "length hs \<le> max_live hs evs"
  by (cases evs) auto

lemma max_live_append:
  "max_live hs (xs @ ys) = max (max_live hs xs) (max_live (live_after hs xs) ys)"
proof (induction xs arbitrary: hs)
  case Nil
  show ?case using max_live_ge [of hs ys] by simp
next
  case (Cons x xs)
  then show ?case by simp
qed

lemma live_after_frees: "live_after hs (map FreeNode xs) = hs"
  by (induction xs) auto

lemma max_live_frees: "max_live hs (map FreeNode xs) = length hs"
  by (induction xs) auto

lemmas live_simps = live_after_append max_live_append live_after_frees max_live_frees

lemma move_dirfd_evs:
  "move_dirfd env exact st s evs =
     (fst (move_dirfd env exact st s []), evs @ snd (move_dirfd env exact st s []))"
  by (simp add: move_dirfd_def split: sum.splits)

lemma move_dirfd_live:
  assumes "move_dirfd env exact st s [] = (res, evs)"
  shows "live_after (cursor st) evs = cursor (res_state res) \<and> max_live (cursor st) evs \<le> 2"
  using assms
  by (auto simp: move_dirfd_def cursor_def xopenat_def split: sum.splits if_splits option.splits)

lemma move_dirfd_live_frees:
  assumes "move_dirfd env exact st s (map FreeNode xs) = (res, evs)"
  shows "live_after (cursor st) evs = cursor (res_state res) \<and> max_live (cursor st) evs \<le> 2"
proof -
  obtain r es where m: "move_dirfd env exact st s [] = (r, es)"
    by (cases "move_dirfd env exact st s []")
  have le: "length (cursor st) \<le> 2" by (simp add: cursor_def split: option.splits)
  from assms m move_dirfd_evs [of env exact st s "map FreeNode xs"]
  have "res = r" "evs = map FreeNode xs @ es" by simp_all
  with move_dirfd_live [OF m] le show ?thesis by (simp add: live_simps)
qed

lemma not_link_live:
  assumes "not_link env exact st new e = (res, evs)"
  shows "live_after (cursor st) evs = cursor (res_state res) \<and> max_live (cursor st) evs \<le> 2"
proof -
  let ?st3 = "st\<lparr>done_list := new # done_list st, errno := e\<rparr>"
  have c3: "cursor ?st3 = cursor st" "cursor (st\<lparr>errno := e\<rparr>) = cursor st"
    by (simp_all add: cursor_def)
  have le: "length (cursor st) \<le> 2" by (simp add: cursor_def split: option.splits)
  show ?thesis
  proof (cases "move_dirfd env exact ?st3 new [] = (res, evs)")
    case True
    from move_dirfd_live [OF True] c3 show ?thesis by simp
  next
    case False
    with assms c3 le show ?thesis
      by (auto simp: not_link_def cursor_def split: if_splits)
  qed
qed

lemma follow_link_live:
  assumes "follow_link env st new buf = (res, evs)" and "dirfd st \<noteq> None"
  shows "live_after (cursor st) evs = cursor (res_state res) \<and> max_live (cursor st) evs \<le> 2"
  using assms
  by (auto simp: follow_link_def open_root_defs cursor_def live_simps
      split: if_splits option.splits)

lemma step_live:
  assumes "step env exact st = (res, evs)"
  shows "live_after (cursor st) evs = cursor (res_state res) \<and> max_live (cursor st) evs \<le> 2"
proof (cases "todo st")
  case Nil
  with assms show ?thesis by (auto simp: step_def cursor_def split: option.splits)
next
  case (Cons new rest)
  let ?st1 = "st\<lparr>todo := rest, try_cnt := try_cnt st - 1\<rparr>"
  have c1: "cursor ?st1 = cursor st" by (simp add: cursor_def)
  have le: "length (cursor st) \<le> 2" by (simp add: cursor_def split: option.splits)
  consider (loop) "try_cnt st = 0" | (dot) "try_cnt st \<noteq> 0" "new = ''.''"
    | (dotdot) "try_cnt st \<noteq> 0" "new = ''..''"
    | (name) "try_cnt st \<noteq> 0" "new \<noteq> ''.''" "new \<noteq> ''..''"
    by blast
  then show ?thesis
  proof cases
    case loop
    with assms Cons le show ?thesis by (auto simp: step_def cursor_def)
  next
    case dot
    with assms Cons le show ?thesis
      by (auto simp: step_def Let_def cursor_def)
  next
    case dotdot
    show ?thesis
    proof (cases "done_list st")
      case Nil
      with assms Cons dotdot
      have m: "move_dirfd env exact ?st1 ''..'' (map FreeNode [new]) = (res, evs)"
        by (simp add: step_def Let_def)
      from move_dirfd_live_frees [OF m] c1 show ?thesis by simp
    next
      case (Cons popped dn)
      with assms \<open>todo st = new # rest\<close> dotdot
      have m: "move_dirfd env exact (?st1\<lparr>done_list := dn\<rparr>) ''..''
                 (map FreeNode [new, popped]) = (res, evs)"
        by (simp add: step_def Let_def)
      have "cursor (?st1\<lparr>done_list := dn\<rparr>) = cursor st" by (simp add: cursor_def)
      with move_dirfd_live_frees [OF m] show ?thesis by simp
    qed
  next
    case name
    show ?thesis
    proof (cases "xreadlinkat env (dirfd st) new 4096")
      case (Inl e)
      with assms Cons name have n: "not_link env exact ?st1 new e = (res, evs)"
        by (simp add: step_def Let_def)
      from not_link_live [OF n] c1 show ?thesis by simp
    next
      case (Inr buf)
      consider (big) "length buf > 4095" | (empty) "buf = []"
        | (link) "\<not> length buf > 4095" "buf \<noteq> []"
        by blast
      then show ?thesis
      proof cases
        case big
        with assms Cons name Inr le show ?thesis
          by (auto simp: step_def Let_def cursor_def)
      next
        case empty
        with assms Cons name Inr
        have m: "move_dirfd env exact ?st1 ''..'' [] = (res, evs)"
          by (simp add: step_def Let_def)
        from move_dirfd_live [OF m] c1 show ?thesis by simp
      next
        case link
        with assms Cons name Inr
        have f: "follow_link env ?st1 new buf = (res, evs)"
          by (simp add: step_def Let_def)
        from Inr have d: "dirfd ?st1 \<noteq> None"
          by (auto simp: xreadlinkat_def split: option.splits)
        from follow_link_live [OF f d] c1 show ?thesis by simp
      qed
    qed
  qed
qed

lemma iter_live:
  "iter env exact n st = Some (st', evs) \<Longrightarrow>
   live_after (cursor st) evs = cursor st' \<and> max_live (cursor st) evs \<le> 2"
proof (induction n arbitrary: st evs)
  case 0
  then show ?case by (simp add: cursor_def split: option.splits)
next
  case (Suc n)
  from Suc.prems obtain st1 evs1 evs2 where
    s: "step env exact st = (Continue st1, evs1)" and
    i: "iter env exact n st1 = Some (st', evs2)" and e: "evs = evs1 @ evs2"
    by (auto split: prod.splits stepres.splits option.splits)
  from step_live [OF s] Suc.IH [OF i] e show ?case
    by (simp add: live_simps)
qed

lemma loop_live:
  "xabspath_loop env exact st = (out, evs) \<Longrightarrow>
   live_after (cursor st) evs = cursor (stop_state out) \<and> max_live (cursor st) evs \<le> 2"
proof (induction env exact st arbitrary: out evs rule: xabspath_loop.induct)
  case (1 env exact st)
  obtain res evs1 where s: "step env exact st = (res, evs1)"
    by (cases "step env exact st")
  show ?case
  proof (cases res)
    case (Continue st1)
    with s have c: "step env exact st = (Continue st1, evs1)" by simp
    obtain out2 evs2 where l: "xabspath_loop env exact st1 = (out2, evs2)"
      by (cases "xabspath_loop env exact st1")
    from "1.prems" loop_Continue [OF c] l have o: "out = out2" "evs = evs1 @ evs2"
      by simp_all
    from "1.IH" [OF c [symmetric] refl l] step_live [OF c] o show ?thesis
      by (simp add: live_simps)
  next
    case (Stop out1)
    with s "1.prems" have "step env exact st = (Stop out, evs)"
      by (simp add: loop_Stop)
    from step_live [OF this] show ?thesis by simp
  qed
qed

lemma finish_live:
  "live_after (cursor (stop_state out)) (events (finish out)) = [] \<and>
   max_live (cursor (stop_state out)) (events (finish out)) \<le> 1"
  by (cases out)
    (auto simp: cursor_def live_simps max_live_frees [of "[]", simplified]
      split: option.splits prod.splits)

text \<open>
  C8, as the code has it. The number of directory descriptors open at the same time
  never exceeds two, and none is open when the call returns. Between two iterations
  the only open descriptor is the directory descriptor, so there is at most one:
  exactly one while a component is pending, where \<open>open("/", 0)\<close> had succeeded, and
  none after a failed open of the last component was passed over. A successful
  \<open>xopenat\<close> opens the new descriptor before the old one is closed; the reset for an
  absolute link target closes the descriptor before it opens the root.
\<close>

theorem directory_handles:
  "max_live [] (events (xabspath env e0 path exact)) \<le> 2 \<and>
   live_after [] (events (xabspath env e0 path exact)) = [] \<and>
   (\<forall>n st evs. iter env exact n (init_state env e0 path) = Some (st, evs) \<longrightarrow>
      live_after [] (open_root_events env @ evs) = cursor st \<and>
      length (cursor st) \<le> 1 \<and>
      (root_error env = None \<and> todo st \<noteq> [] \<longrightarrow> (\<exists>d. cursor st = [d]))) \<and>
   (\<forall>st s fd. xopenat env (dirfd st) s = Inr fd \<longrightarrow>
      snd (move_dirfd env exact st s []) = [Open fd, Close (dirfd st)]) \<and>
   (\<forall>st s. \<not> exact \<and> todo st = [] \<and> xopenat env (dirfd st) s = Inl ENOENT \<longrightarrow>
      (\<exists>st'. move_dirfd env exact st s [] = (Continue st', [Close (dirfd st)]) \<and>
             cursor st' = [])) \<and>
   (\<forall>st new buf. hd buf = CHR ''/'' \<and> root_error env = None \<longrightarrow>
      snd (follow_link env st new buf) =
        map FreeNode (done_list st) @ [Close (dirfd st), Open (root_dir env), FreeNode new])"
proof (intro conjI allI impI)
  let ?i = "init_state env e0 path"
  obtain out evs where l: "xabspath_loop env exact ?i = (out, evs)"
    by (cases "xabspath_loop env exact ?i")
  have c: "live_after [] (open_root_events env) = cursor ?i"
    "max_live [] (open_root_events env) \<le> 1"
    by (simp_all add: cursor_def init_state_def open_root_defs split: option.splits)
  have e: "events (xabspath env e0 path exact) = open_root_events env @ evs @ events (finish out)"
    using l by (simp add: xabspath_def run_def Let_def)
  from loop_live [OF l] finish_live [of out] c
  show "max_live [] (events (xabspath env e0 path exact)) \<le> 2"
    and "live_after [] (events (xabspath env e0 path exact)) = []"
    by (simp_all add: e live_simps)
next
  fix n st evs
  assume r: "iter env exact n (init_state env e0 path) = Some (st, evs)"
  have "live_after [] (open_root_events env) = cursor (init_state env e0 path)"
    by (simp add: cursor_def init_state_def open_root_defs split: option.splits)
  with iter_live [OF r]
  show "live_after [] (open_root_events env @ evs) = cursor st"
    by (simp add: live_simps)
  show "length (cursor st) \<le> 1"
    by (simp add: cursor_def split: option.splits)
  assume "root_error env = None \<and> todo st \<noteq> []"
  with iter_dir_ok [OF r init_dir_ok init_root_ok] show "\<exists>d. cursor st = [d]"
    by (auto simp: dir_ok_def cursor_def)
next
  fix st :: "'a rstate" and s fd
  assume "xopenat env (dirfd st) s = Inr fd"
  then show "snd (move_dirfd env exact st s []) = [Open fd, Close (dirfd st)]"
    by (simp add: move_dirfd_def)
next
  fix st :: "'a rstate" and s
  assume "\<not> exact \<and> todo st = [] \<and> xopenat env (dirfd st) s = Inl ENOENT"
  then show "\<exists>st'. move_dirfd env exact st s [] = (Continue st', [Close (dirfd st)]) \<and>
      cursor st' = []"
    by (simp add: move_dirfd_def cursor_def)
next
  fix st :: "'a rstate" and new buf
  assume "hd buf = CHR ''/'' \<and> root_error env = None"
  then show "snd (follow_link env st new buf) =
      map FreeNode (done_list st) @ [Close (dirfd st), Open (root_dir env), FreeNode new]"
    by (simp add: follow_link_def open_root_defs)
qed

theorem directory_handles_witness:
  "live_after [] [Open 0, Open (1::nat), Close (Some 0)] = [1] \<and>
   snd (move_dirfd fs_abc False
          \<lparr>todo = [''b''], done_list = [], try_cnt = 9998, dirfd = Some 0, errno = ENOENT\<rparr>
          ''a'' [])
     = [Open 1, Close (Some 0)] \<and>
   snd (move_dirfd fs_abc False
          \<lparr>todo = [], done_list = [''zz''], try_cnt = 9998, dirfd = Some 0, errno = ENOENT\<rparr>
          ''zz'' [])
     = [Close (Some 0)] \<and>
   snd (follow_link fs_abc
          \<lparr>todo = [], done_list = [''a''], try_cnt = 9997, dirfd = Some 1, errno = EINVAL\<rparr>
          ''up'' ''/a'')
     = [FreeNode ''a'', Close (Some 1), Open 0, FreeNode ''up'']"
proof -
  let ?s1 = "\<lparr>todo = [''b''], done_list = [''a''], try_cnt = 9998, dirfd = Some (1::nat),
              errno = EINVAL\<rparr>"
  let ?s2 = "\<lparr>todo = [''b''], done_list = [], try_cnt = 9998, dirfd = Some (0::nat),
              errno = ENOENT\<rparr>"
  let ?s3 = "\<lparr>todo = [], done_list = [''zz''], try_cnt = 9998, dirfd = Some (0::nat),
              errno = ENOENT\<rparr>"
  let ?s4 = "\<lparr>todo = [], done_list = [''a''], try_cnt = 9997, dirfd = Some (1::nat),
              errno = EINVAL\<rparr>"
  have r: "iter fs_abc False (Suc 0) (init_state fs_abc ENOENT ''/a/b'')
      = Some (?s1, [Open 1, Close (Some 0)])"
    by (simp add: eval_defs fs_abc_def table_fs_def)
  have root: "root_dir fs_abc = 0" "root_error fs_abc = None"
    "open_root_events fs_abc = [Open 0]"
    by (simp_all add: open_root_events_def fs_abc_def table_fs_def)
  have x: "xopenat fs_abc (dirfd ?s2) ''a'' = Inr 1"
    "\<not> False \<and> todo ?s3 = [] \<and> xopenat fs_abc (dirfd ?s3) ''zz'' = Inl ENOENT"
    "hd ''/a'' = CHR ''/'' \<and> root_error fs_abc = None"
    by (simp_all add: xopenat_def fs_abc_def table_fs_def)
  from directory_handles [of fs_abc ENOENT "''/a/b''" False]
  have a: "\<forall>n st evs. iter fs_abc False n (init_state fs_abc ENOENT ''/a/b'') = Some (st, evs) \<longrightarrow>
      live_after [] (open_root_events fs_abc @ evs) = cursor st \<and>
      length (cursor st) \<le> 1 \<and>
      (root_error fs_abc = None \<and> todo st \<noteq> [] \<longrightarrow> (\<exists>d. cursor st = [d]))"
    and b: "\<forall>st s fd. xopenat fs_abc (dirfd st) s = Inr fd \<longrightarrow>
      snd (move_dirfd fs_abc False st s []) = [Open fd, Close (dirfd st)]"
    and p: "\<forall>st s. \<not> False \<and> todo st = [] \<and> xopenat fs_abc (dirfd st) s = Inl ENOENT \<longrightarrow>
      (\<exists>st'. move_dirfd fs_abc False st s [] = (Continue st', [Close (dirfd st)]) \<and>
             cursor st' = [])"
    and c: "\<forall>st new buf. hd buf = CHR ''/'' \<and> root_error fs_abc = None \<longrightarrow>
      snd (follow_link fs_abc st new buf) =
        map FreeNode (done_list st) @ [Close (dirfd st), Open (root_dir fs_abc), FreeNode new]"
    by blast+
  from a r have "live_after [] (open_root_events fs_abc @ [Open 1, Close (Some 0)]) = cursor ?s1"
    by blast
  then have 1: "live_after [] [Open 0, Open (1::nat), Close (Some 0)] = [1]"
    by (simp add: root cursor_def)
  from b x(1) have "snd (move_dirfd fs_abc False ?s2 ''a'' []) = [Open 1, Close (dirfd ?s2)]"
    by blast
  then have 2: "snd (move_dirfd fs_abc False ?s2 ''a'' []) = [Open 1, Close (Some 0)]"
    by simp
  from p x(2) obtain st' where
    "move_dirfd fs_abc False ?s3 ''zz'' [] = (Continue st', [Close (dirfd ?s3)])"
    by blast
  then have 3: "snd (move_dirfd fs_abc False ?s3 ''zz'' []) = [Close (Some 0)]"
    by simp
  from c x(3) have "snd (follow_link fs_abc ?s4 ''up'' ''/a'')
     = map FreeNode (done_list ?s4) @
       [Close (dirfd ?s4), Open (root_dir fs_abc), FreeNode ''up'']"
    by blast
  then have 4: "snd (follow_link fs_abc ?s4 ''up'' ''/a'')
     = [FreeNode ''a'', Close (Some 1), Open 0, FreeNode ''up'']"
    by (simp add: root)
  from 1 2 3 4 show ?thesis by simp
qed

theorem directory_handles_counterexample:
  "take 3 (events (xabspath fs_abc ENOENT ''/a/b'' True)) = [Open 0, Open 1, Close (Some 0)] \<and>
   live_after [] (take 2 (events (xabspath fs_abc ENOENT ''/a/b'' True))) = [1, 0] \<and>
   max_live [] (events (xabspath fs_abc ENOENT ''/a/b'' True)) = 2"
  by (simp add: eval_defs fs_abc_def table_fs_def)

section \<open>The assembled path\<close>

lemma split_from_component:
  "CHR ''/'' \<notin> set cur \<Longrightarrow> c \<in> set (split_from cur s) \<Longrightarrow> component c"
  by (induction cur s rule: split_from.induct) (auto simp: component_def split: if_splits)

lemma splitpath_component: "c \<in> set (splitpath s) \<Longrightarrow> component c"
  using split_from_component [of "[]" c s] by (simp add: splitpath_def)

lemma init_comps_ok: "comps_ok (init_state env e0 path)"
  by (auto simp: comps_ok_def init_state_def dest: splitpath_component)

lemma move_dirfd_comps:
  "move_dirfd env exact st s evs = (res, evs') \<Longrightarrow> comps_ok st \<Longrightarrow> comps_ok (res_state res)"
  by (auto simp: move_dirfd_def comps_ok_def split: sum.splits if_splits)

lemma move_dirfd_Exit: "move_dirfd env exact st s evs \<noteq> (Stop (Exit st'), evs')"
  by (auto simp: move_dirfd_def split: sum.splits if_splits)

lemma step_comps:
  assumes "step env exact st = (res, evs)" and "comps_ok st"
  shows "comps_ok (res_state res)"
proof (cases "todo st")
  case Nil
  with assms show ?thesis by (auto simp: step_def)
next
  case (Cons new rest)
  let ?st1 = "st\<lparr>todo := rest, try_cnt := try_cnt st - 1\<rparr>"
  from assms(2) Cons have new: "component new"
    and ok1: "comps_ok ?st1"
    by (auto simp: comps_ok_def)
  have ok1': "comps_ok (?st1\<lparr>done_list := dn\<rparr>)" if "done_list st = popped # dn" for popped dn
    using ok1 that by (auto simp: comps_ok_def)
  have okn: "comps_ok (?st1\<lparr>done_list := new # done_list ?st1, errno := e\<rparr>)" for e
    using new ok1 by (auto simp: comps_ok_def)
  have okl: "comps_ok (?st1\<lparr>todo := splitpath buf @ todo ?st1\<rparr>)"
    "comps_ok (?st1\<lparr>todo := splitpath buf @ todo ?st1, done_list := [],
                     dirfd := d, errno := e\<rparr>)" for buf d e
    using ok1 by (auto simp: comps_ok_def dest: splitpath_component)
  from assms(1) Cons ok1 ok1' okn okl show ?thesis
    by (auto simp: step_def Let_def not_link_def follow_link_def comps_ok_def
        split: if_splits list.splits sum.splits dest!: move_dirfd_comps)
qed

lemma step_Exit_todo: "step env exact st = (Stop (Exit st'), evs) \<Longrightarrow> todo st' = []"
  by (auto simp: step_def Let_def not_link_def follow_link_def move_dirfd_Exit
      split: if_splits list.splits sum.splits)

lemma loop_Exit:
  "xabspath_loop env exact st = (out, evs) \<Longrightarrow> comps_ok st \<Longrightarrow>
   comps_ok (stop_state out) \<and> (\<forall>st'. out = Exit st' \<longrightarrow> todo st' = [])"
proof (induction env exact st arbitrary: out evs rule: xabspath_loop.induct)
  case (1 env exact st)
  obtain res evs1 where s: "step env exact st = (res, evs1)"
    by (cases "step env exact st")
  show ?case
  proof (cases res)
    case (Continue st1)
    with s have c: "step env exact st = (Continue st1, evs1)" by simp
    obtain out2 evs2 where l: "xabspath_loop env exact st1 = (out2, evs2)"
      by (cases "xabspath_loop env exact st1")
    from "1.prems"(1) loop_Continue [OF c] l have o: "out = out2"
      by simp
    from step_comps [OF c "1.prems"(2)] have "comps_ok st1" by simp
    from "1.IH" [OF c [symmetric] refl l this] o show ?thesis by simp
  next
    case (Stop out1)
    with s "1.prems"(1) have x: "step env exact st = (Stop out, evs)"
      by (simp add: loop_Stop)
    from step_comps [OF x "1.prems"(2)] step_Exit_todo x show ?thesis
      by auto
  qed
qed

lemma assemble_long:
  "1 < length r \<Longrightarrow> \<forall>c \<in> set cs. c \<noteq> [] \<Longrightarrow>
   assemble r cs = r @ concat (map (\<lambda>c. CHR ''/'' # c) cs)"
  by (induction cs arbitrary: r) auto

lemma assemble_root:
  assumes "\<forall>c \<in> set cs. c \<noteq> []"
  shows "assemble ''/'' cs = (if cs = [] then ''/'' else concat (map (\<lambda>c. CHR ''/'' # c) cs))"
proof (cases cs)
  case Nil
  then show ?thesis by simp
next
  case (Cons c cs')
  with assms have "1 < length (''/'' @ c)" "\<forall>c \<in> set cs'. c \<noteq> []"
    by (cases c; simp)+
  from assemble_long [OF this] Cons show ?thesis by simp
qed

lemma no_double_slash_name:
  "CHR ''/'' \<notin> set c \<Longrightarrow> no_double_slash r \<Longrightarrow> no_double_slash (c @ r)"
proof (induction c)
  case Nil
  then show ?case by simp
next
  case (Cons x xs)
  then show ?case by (cases "xs @ r") auto
qed

lemma no_double_slash_join:
  "\<forall>c \<in> set cs. component c \<Longrightarrow> no_double_slash (concat (map (\<lambda>c. CHR ''/'' # c) cs))"
proof (induction cs)
  case Nil
  then show ?case by simp
next
  case (Cons c cs)
  then obtain x xs where c: "c = x # xs" "x \<noteq> CHR ''/''" "CHR ''/'' \<notin> set xs"
    by (cases c) (auto simp: component_def)
  from Cons have "no_double_slash (concat (map (\<lambda>c. CHR ''/'' # c) cs))" by simp
  with c have "no_double_slash ((x # xs) @ concat (map (\<lambda>c. CHR ''/'' # c) cs))"
    by (intro no_double_slash_name) auto
  with c show ?case by simp
qed

lemma last_join:
  "cs \<noteq> [] \<Longrightarrow> \<forall>c \<in> set cs. component c \<Longrightarrow>
   last (concat (map (\<lambda>c. CHR ''/'' # c) cs)) \<noteq> CHR ''/''"
proof (induction cs)
  case Nil
  then show ?case by simp
next
  case (Cons c cs)
  show ?case
  proof (cases cs)
    case Nil
    from Cons.prems have "c \<noteq> []" "CHR ''/'' \<notin> set c"
      by (auto simp: component_def)
    then have "last c \<noteq> CHR ''/''" "c \<noteq> []"
      by (metis last_in_set)+
    with Nil show ?thesis by simp
  next
    case (Cons d ds)
    with Cons.IH Cons.prems show ?thesis by simp
  qed
qed

text \<open>
  The buffer that line 261 allocates has exactly the size of the assembled string with
  its terminating NUL, so the copies of lines 264 to 268 stay inside it.
\<close>

lemma reverse_done_snd:
  "snd (reverse_done dn td n) =
     n + sum_list (map length dn) + (if td = [] then length dn - 1 else length dn)"
  by (induction dn arbitrary: td n) auto

lemma length_join: "length (concat (map (\<lambda>c. CHR ''/'' # c) cs)) = sum_list (map length cs) + length cs"
  by (induction cs) auto

lemma sum_length_rev: "sum_list (map length (rev xs)) = sum_list (map length xs)"
  by (induction xs) auto

lemma buffer_size_exact:
  assumes "\<forall>c \<in> set dn. c \<noteq> []"
  shows "snd (reverse_done dn [] 2) = length (assemble ''/'' (fst (reverse_done dn [] 2))) + 1"
proof -
  let ?cs = "rev dn"
  have ne: "\<forall>c \<in> set ?cs. c \<noteq> []" using assms by simp
  have a: "assemble ''/'' ?cs =
      (if ?cs = [] then ''/'' else concat (map (\<lambda>c. CHR ''/'' # c) ?cs))"
    by (rule assemble_root [OF ne])
  have l: "length (assemble ''/'' ?cs) =
      (if dn = [] then 1 else sum_list (map length dn) + length dn)"
  proof (cases dn)
    case Nil
    with a show ?thesis by simp
  next
    case (Cons x xs)
    with a have "length (assemble ''/'' ?cs) = length (concat (map (\<lambda>c. CHR ''/'' # c) ?cs))"
      by simp
    also have "\<dots> = sum_list (map length dn) + length dn"
      unfolding length_join sum_length_rev by simp
    finally show ?thesis using Cons by simp
  qed
  have f: "fst (reverse_done dn [] 2) = ?cs" by (simp add: reverse_done_fst)
  show ?thesis unfolding f l by (cases dn) (simp_all add: reverse_done_snd)
qed

text \<open>
  C10. When the call returns a string, the loop has left through the assembly with
  nothing pending, every resolved component is a non-empty name without \<open>/\<close>, and the
  string is \<open>/\<close> for an empty resolved list and otherwise the components in order, each
  preceded by one \<open>/\<close>. So it is not empty, begins with \<open>/\<close>, has no two \<open>/\<close> in a
  row, and ends in \<open>/\<close> only when it is \<open>/\<close>.
\<close>

theorem returned_path_shape:
  assumes "ret (xabspath env e0 path exact) = Some s"
  shows "\<exists>st evs. xabspath_loop env exact (init_state env e0 path) = (Exit st, evs) \<and>
           todo st = [] \<and>
           (\<forall>c \<in> set (done_list st). c \<noteq> [] \<and> CHR ''/'' \<notin> set c) \<and>
           s = (if done_list st = [] then ''/''
                else concat (map (\<lambda>c. CHR ''/'' # c) (rev (done_list st)))) \<and>
           s \<noteq> [] \<and> hd s = CHR ''/'' \<and> no_double_slash s \<and>
           (s \<noteq> ''/'' \<longrightarrow> last s \<noteq> CHR ''/'')"
proof -
  obtain out evs where l: "xabspath_loop env exact (init_state env e0 path) = (out, evs)"
    by (cases "xabspath_loop env exact (init_state env e0 path)")
  from assms l obtain st where out: "out = Exit st"
    by (cases out) (auto simp: xabspath_def run_def Let_def)
  from loop_Exit [OF l init_comps_ok] out have ok: "comps_ok st" and t: "todo st = []"
    by auto
  let ?cs = "rev (done_list st)"
  from ok have c: "\<forall>c \<in> set ?cs. component c" by (simp add: comps_ok_def)
  then have ne: "\<forall>c \<in> set ?cs. c \<noteq> []" by (simp add: component_def)
  have "fst (reverse_done (done_list st) (todo st) 2) = ?cs"
    using t by (simp add: reverse_done_fst)
  with assms l out have "s = assemble ''/'' ?cs"
    by (auto simp: xabspath_def run_def Let_def split: prod.splits)
  with assemble_root [OF ne]
  have s: "s = (if done_list st = [] then ''/''
                else concat (map (\<lambda>c. CHR ''/'' # c) (rev (done_list st))))"
    by simp
  have 1: "s \<noteq> []" "hd s = CHR ''/''"
    using s by (cases "rev (done_list st)"; simp)+
  have 2: "no_double_slash s"
    using s no_double_slash_join [OF c] by simp
  have 3: "s \<noteq> ''/'' \<longrightarrow> last s \<noteq> CHR ''/''"
    using s last_join [OF _ c] by simp
  from l out t c s 1 2 3 show ?thesis
    by (simp add: component_def)
qed

theorem returned_path_shape_witness:
  "xabspath_loop fs_abc True (init_state fs_abc ENOENT ''//a/./b//'') =
     (Exit \<lparr>todo = [], done_list = [''b'', ''a''], try_cnt = 9996, dirfd = Some 1,
             errno = EINVAL\<rparr>, [Open 1, Close (Some 0), FreeNode ''.'']) \<and>
   ret (xabspath fs_abc ENOENT ''//a/./b//'' True) = Some ''/a/b'' \<and>
   no_double_slash ''/a/b'' \<and> last ''/a/b'' \<noteq> CHR ''/''"
proof -
  have r: "ret (xabspath fs_abc ENOENT ''//a/./b//'' True) = Some ''/a/b''"
    by (simp add: eval_defs fs_abc_def table_fs_def)
  have l: "xabspath_loop fs_abc True (init_state fs_abc ENOENT ''//a/./b//'') =
     (Exit \<lparr>todo = [], done_list = [''b'', ''a''], try_cnt = 9996, dirfd = Some 1,
             errno = EINVAL\<rparr>, [Open 1, Close (Some 0), FreeNode ''.''])"
    by (simp add: eval_defs fs_abc_def table_fs_def)
  from returned_path_shape [OF r] l r show ?thesis
    by auto
qed

section \<open>Substituting a link by its target\<close>

lemma move_dirfd_more_budget:
  "move_dirfd env exact st s evs = (res, evs') \<Longrightarrow>
   move_dirfd env exact (more_budget st) s evs = (map_res more_budget res, evs')"
  by (auto simp: move_dirfd_def more_budget_def split: sum.splits if_splits)

lemma step_more_budget:
  assumes "step env exact st = (res, evs)" and "todo st = [] \<or> 0 < try_cnt st"
  shows "step env exact (more_budget st) = (map_res more_budget res, evs)"
proof (cases "todo st")
  case Nil
  with assms show ?thesis by (auto simp: step_def more_budget_def)
next
  case (Cons new rest)
  with assms have t: "0 < try_cnt st" by simp
  from assms(1) Cons t show ?thesis
    by (auto simp: step_def Let_def not_link_def follow_link_def move_dirfd_def more_budget_def
        split: list.splits sum.splits if_splits)
qed

lemma loop_more_budget:
  "xabspath_loop env exact st = (out, evs) \<Longrightarrow>
   xabspath_loop env exact (more_budget st) = (map_stop more_budget out, evs) \<or>
   (\<exists>st'. out = Fatal st' \<and> errno st' = ELOOP)"
proof (induction env exact st arbitrary: out evs rule: xabspath_loop.induct)
  case (1 env exact st)
  obtain res evs1 where s: "step env exact st = (res, evs1)"
    by (cases "step env exact st")
  show ?case
  proof (cases "todo st = [] \<or> 0 < try_cnt st")
    case True
    note s' = step_more_budget [OF s True]
    show ?thesis
    proof (cases res)
      case (Continue st1)
      with s s' have c: "step env exact st = (Continue st1, evs1)"
        and c': "step env exact (more_budget st) = (Continue (more_budget st1), evs1)"
        by simp_all
      obtain out2 evs2 where l: "xabspath_loop env exact st1 = (out2, evs2)"
        by (cases "xabspath_loop env exact st1")
      from "1.prems" loop_Continue [OF c] l have o: "out2 = out" "evs = evs1 @ evs2"
        by simp_all
      from "1.IH" [OF c [symmetric] refl l] o loop_Continue [OF c'] show ?thesis
        by auto
    next
      case (Stop out1)
      with s s' "1.prems" show ?thesis
        by (simp add: loop_Stop)
    qed
  next
    case False
    then obtain new rest where "todo st = new # rest" "try_cnt st = 0"
      by (cases "todo st") auto
    then have "step env exact st = (Stop (Fatal (st\<lparr>todo := rest, errno := ELOOP\<rparr>)), [])"
      by (simp add: step_def)
    from loop_Stop [OF this] "1.prems" show ?thesis
      by auto
  qed
qed

text \<open>
  C3, as the code has it. Let \<open>/a\<close> be a symbolic link with target \<open>/b/c\<close>. The first
  iteration on \<open>/a/d\<close> leaves the loop in the state in which \<open>/b/c/d\<close> starts, but with
  one iteration less to go: \<open>xabspath("/a/d", exact)\<close> returns what the loop returns
  for \<open>/b/c/d\<close> with the counter at 9998. So the two calls return the same, unless the
  call on \<open>/a/d\<close> runs out of iterations and returns \<open>NULL\<close> with \<open>errno = ELOOP\<close>.
\<close>

theorem link_substitution:
  assumes "readlink_target env (root_dir env) ''a'' = Inr ''/b/c''"
  shows "ret (xabspath env e0 ''/a/d'' exact) =
           ret (run env exact ((init_state env e0 ''/b/c/d'')\<lparr>try_cnt := 9998\<rparr>)) \<and>
         (ret (xabspath env e0 ''/a/d'' exact) = ret (xabspath env e0 ''/b/c/d'' exact) \<or>
          ret (xabspath env e0 ''/a/d'' exact) = None \<and>
          err (xabspath env e0 ''/a/d'' exact) = ELOOP)"
proof (cases "root_error env")
  case (Some e)
  let ?st' = "(init_state env e0 ''/b/c/d'')\<lparr>try_cnt := 9998\<rparr>"
  have a: "step env exact (init_state env e0 ''/a/d'') =
      (Stop (Fatal ((init_state env e0 ''/a/d'')
                      \<lparr>todo := [''d''], try_cnt := 9998, errno := EBADF\<rparr>)), [])"
    using Some
    by (simp add: step_def Let_def init_state_def open_root_defs is_absolute_def splitpath_def
        xreadlinkat_def not_link_def)
  have b: "step env exact (init_state env e0 ''/b/c/d'') =
      (Stop (Fatal ((init_state env e0 ''/b/c/d'')
                      \<lparr>todo := [''c'', ''d''], try_cnt := 9998, errno := EBADF\<rparr>)), [])"
    using Some
    by (simp add: step_def Let_def init_state_def open_root_defs is_absolute_def splitpath_def
        xreadlinkat_def not_link_def)
  have c: "step env exact ?st' =
      (Stop (Fatal (?st'\<lparr>todo := [''c'', ''d''], try_cnt := 9997, errno := EBADF\<rparr>)), [])"
    using Some
    by (simp add: step_def Let_def init_state_def open_root_defs is_absolute_def splitpath_def
        xreadlinkat_def not_link_def)
  from run_Stop [OF a] run_Stop [OF b] run_Stop [OF c] show ?thesis
    by (simp add: xabspath_def Let_def)
next
  case None
  let ?st' = "(init_state env e0 ''/b/c/d'')\<lparr>try_cnt := 9998\<rparr>"
  have s: "step env exact (init_state env e0 ''/a/d'') =
      (Continue ?st', [Close (Some (root_dir env)), Open (root_dir env), FreeNode ''a''])"
    using assms None
    by (simp add: step_def Let_def init_state_def open_root_defs is_absolute_def splitpath_def
        xreadlinkat_def follow_link_def close_errno_def)
  have 1: "ret (xabspath env e0 ''/a/d'' exact) = ret (run env exact ?st')"
    and 4: "err (xabspath env e0 ''/a/d'' exact) = err (run env exact ?st')"
    using run_Continue [OF s] by (simp_all add: xabspath_def Let_def)
  have m: "more_budget ?st' = init_state env e0 ''/b/c/d''"
    by (simp add: more_budget_def init_state_def)
  have ok: "dir_ok ?st'" "root_ok env ?st'"
    using None by (simp_all add: dir_ok_def root_ok_def init_state_def open_root_defs)
  obtain out evs where l: "xabspath_loop env exact ?st' = (out, evs)"
    by (cases "xabspath_loop env exact ?st'")
  from loop_more_budget [OF l] m
  consider (same) "xabspath_loop env exact (init_state env e0 ''/b/c/d'')
                     = (map_stop more_budget out, evs)"
    | (eloop) st' where "out = Fatal st'" "errno st' = ELOOP"
    by auto
  then have "ret (run env exact ?st') = ret (xabspath env e0 ''/b/c/d'' exact) \<or>
      ret (run env exact ?st') = None \<and> err (run env exact ?st') = ELOOP"
  proof cases
    case same
    with l have "ret (run env exact ?st') = ret (xabspath env e0 ''/b/c/d'' exact)"
      by (cases out) (simp_all add: xabspath_def run_def Let_def more_budget_def)
    then show ?thesis by simp
  next
    case eloop
    with l loop_Fatal_dirfd [OF _ ok, of exact st' evs]
    have "ret (run env exact ?st') = None \<and> err (run env exact ?st') = ELOOP"
      by (auto simp: run_def close_errno_def)
    then show ?thesis by simp
  qed
  with 1 4 show ?thesis by simp
qed

theorem link_substitution_witness:
  "ret (xabspath fs_subst ENOENT ''/a/d'' True) = Some ''/b/c/d'' \<and>
   ret (xabspath fs_subst ENOENT ''/b/c/d'' True) = Some ''/b/c/d''"
proof -
  have l: "readlink_target fs_subst (root_dir fs_subst) ''a'' = Inr ''/b/c''"
    by (simp add: fs_subst_def table_fs_def)
  have r: "ret (xabspath fs_subst ENOENT ''/a/d'' True) = Some ''/b/c/d''"
    by (simp add: eval_defs fs_subst_def table_fs_def)
  from link_substitution [OF l, of ENOENT True, THEN conjunct2] r
  have "ret (xabspath fs_subst ENOENT ''/b/c/d'' True) = Some ''/b/c/d''"
    by (elim disjE) simp_all
  with r show ?thesis by simp
qed

lemma chain_hop:
  assumes "map_of [((0, ''a''), ''/b/c''),
      ((0, ''b''), dots 2000 @ ''e''), ((0, ''e''), dots 2000 @ ''f''),
      ((0, ''f''), dots 2000 @ ''g''), ((0, ''g''), dots 2000 @ ''h''),
      ((0::nat, ''h''), dots 1992)] (0, x) = Some (dots k @ y)"
    and "0 < k" "2 * k + length y \<le> 4095" "x \<noteq> ''.''" "x \<noteq> ''..''"
  shows "\<exists>evs. iter fs_chain exact (Suc k) (chain_state (x # rest) (Suc k + n) e)
           = Some (chain_state (splitpath y @ rest) n e, evs)"
proof -
  have "readlink_target fs_chain 0 x = Inr (dots k @ y)"
    using assms(1) by (simp add: fs_chain_def table_fs_def)
  then have s: "step fs_chain exact (chain_state (x # rest) (Suc k + n) e)
      = (Continue (chain_state (replicate k ''.'' @ splitpath y @ rest) (k + n) e), [FreeNode x])"
    using assms(2-) hd_dots [OF assms(2), of y]
    by (simp add: step_def Let_def chain_state_def xreadlinkat_def follow_link_def length_dots
        splitpath_def split_from_dots)
  have "iter fs_chain exact k
          ((chain_state (splitpath y @ rest) n e)
             \<lparr>todo := replicate k ''.'' @ (splitpath y @ rest), try_cnt := k + n\<rparr>)
      = Some ((chain_state (splitpath y @ rest) n e)\<lparr>todo := splitpath y @ rest, try_cnt := n\<rparr>,
              replicate k (FreeNode ''.''))"
    by (rule iter_dots)
  then have i: "iter fs_chain exact k (chain_state (replicate k ''.'' @ splitpath y @ rest) (k + n) e)
      = Some (chain_state (splitpath y @ rest) n e, replicate k (FreeNode ''.''))"
    by (simp add: chain_state_def)
  from s i show ?thesis by simp
qed

lemma chain_iter:
  "\<exists>evs. iter fs_chain exact 9997 (chain_state [''b'', ''c'', ''d''] (9997 + n) e)
     = Some (chain_state [''c'', ''d''] n e, evs)"
proof -
  let ?r = "[''c'', ''d'']"
  have sp: "splitpath ''e'' = [''e'']" "splitpath ''f'' = [''f'']" "splitpath ''g'' = [''g'']"
    "splitpath ''h'' = [''h'']" "splitpath [] = []"
    by (simp_all add: splitpath_def)
  obtain e1 where 1: "iter fs_chain exact 2001 (chain_state (''b'' # ?r) (9997 + n) e)
      = Some (chain_state (''e'' # ?r) (7996 + n) e, e1)"
    using chain_hop [of "''b''" 2000 "''e''" exact ?r "7996 + n" e] by (auto simp: sp)
  obtain e2 where 2: "iter fs_chain exact 2001 (chain_state (''e'' # ?r) (7996 + n) e)
      = Some (chain_state (''f'' # ?r) (5995 + n) e, e2)"
    using chain_hop [of "''e''" 2000 "''f''" exact ?r "5995 + n" e] by (auto simp: sp)
  obtain e3 where 3: "iter fs_chain exact 2001 (chain_state (''f'' # ?r) (5995 + n) e)
      = Some (chain_state (''g'' # ?r) (3994 + n) e, e3)"
    using chain_hop [of "''f''" 2000 "''g''" exact ?r "3994 + n" e] by (auto simp: sp)
  obtain e4 where 4: "iter fs_chain exact 2001 (chain_state (''g'' # ?r) (3994 + n) e)
      = Some (chain_state (''h'' # ?r) (1993 + n) e, e4)"
    using chain_hop [of "''g''" 2000 "''h''" exact ?r "1993 + n" e] by (auto simp: sp)
  obtain e5 where 5: "iter fs_chain exact 1993 (chain_state (''h'' # ?r) (1993 + n) e)
      = Some (chain_state ?r n e, e5)"
    using chain_hop [of "''h''" 1992 "[]" exact ?r n e] by (auto simp: sp)
  note iter_add [OF iter_add [OF iter_add [OF iter_add [OF 1 2] 3] 4] 5]
  then have "iter fs_chain exact 9997 (chain_state (''b'' # ?r) (9997 + n) e)
      = Some (chain_state ?r n e, (((e1 @ e2) @ e3) @ e4) @ e5)"
    by simp
  then show ?thesis by blast
qed

lemma chain_tail:
  "run fs_chain exact (chain_state [''c'', ''d''] (Suc (Suc n)) e) =
     \<lparr>ret = Some ''/c/d'', err = EINVAL,
      events = [Open 1, Close (Some 0), Close (Some 1), FreeNode ''c'', FreeNode ''d'']\<rparr>"
  "ret (run fs_chain exact (chain_state [''c'', ''d''] (Suc 0) e)) = None"
  "err (run fs_chain exact (chain_state [''c'', ''d''] (Suc 0) e)) = ELOOP"
  by (simp_all add: run_def chain_state_def fs_chain_def table_fs_def step_def Let_def
      not_link_def move_dirfd_def xreadlinkat_def xopenat_def close_errno_def
      xabspath_loop.simps)

text \<open>
  In \<open>fs_chain\<close> the path \<open>/b/c/d\<close> takes exactly 9999 iterations and resolves to
  \<open>/c/d\<close>, while \<open>/a/d\<close> needs one more and fails with \<open>ELOOP\<close>.
\<close>

theorem link_substitution_counterexample:
  "readlink_target fs_chain (root_dir fs_chain) ''a'' = Inr ''/b/c'' \<and>
   ret (xabspath fs_chain ENOENT ''/a/d'' False) = None \<and>
   err (xabspath fs_chain ENOENT ''/a/d'' False) = ELOOP \<and>
   ret (xabspath fs_chain ENOENT ''/b/c/d'' False) = Some ''/c/d''"
proof -
  have l: "readlink_target fs_chain (root_dir fs_chain) ''a'' = Inr ''/b/c''"
    by (simp add: fs_chain_def table_fs_def)
  have ib: "init_state fs_chain ENOENT ''/b/c/d'' = chain_state [''b'', ''c'', ''d''] (9997 + 2) ENOENT"
    by (simp add: init_state_def open_root_defs chain_state_def is_absolute_def splitpath_def fs_chain_def
        table_fs_def)
  have sa: "step fs_chain False (init_state fs_chain ENOENT ''/a/d'') =
      (Continue (chain_state [''b'', ''c'', ''d''] (9997 + 1) ENOENT),
       [Close (Some 0), Open 0, FreeNode ''a''])"
    by (simp add: init_state_def open_root_defs chain_state_def is_absolute_def splitpath_def fs_chain_def
        table_fs_def step_def Let_def xreadlinkat_def follow_link_def close_errno_def)
  obtain e2 where 2: "iter fs_chain False 9997 (chain_state [''b'', ''c'', ''d''] (9997 + 2) ENOENT)
      = Some (chain_state [''c'', ''d''] 2 ENOENT, e2)"
    using chain_iter [of False 2 ENOENT] by blast
  obtain e1 where 1: "iter fs_chain False 9997 (chain_state [''b'', ''c'', ''d''] (9997 + 1) ENOENT)
      = Some (chain_state [''c'', ''d''] 1 ENOENT, e1)"
    using chain_iter [of False 1 ENOENT] by blast
  have b: "ret (xabspath fs_chain ENOENT ''/b/c/d'' False) = Some ''/c/d''"
    using iter_run [OF 2] chain_tail(1) [of False 0 ENOENT] ib
    by (simp add: xabspath_def Let_def numeral_2_eq_2)
  have a: "ret (xabspath fs_chain ENOENT ''/a/d'' False) = None \<and>
      err (xabspath fs_chain ENOENT ''/a/d'' False) = ELOOP"
    using run_Continue [OF sa] iter_run [OF 1] chain_tail(2,3) [of False ENOENT]
    by (simp add: xabspath_def Let_def)
  from l a b show ?thesis by simp
qed

end
